theory Spec2Isabelle
  imports Main "HOL-Library.Word"
begin

unbundle bit_operations_syntax

section \<open>The storable encoder (storable.go)\<close>

text \<open>
  The encoder walks a Go value through package \<open>reflect\<close> and appends a Perl Storable
  byte stream to a \<open>bytes.Buffer\<close>. The embedding keeps the shape of the source: the
  buffer is passed explicitly and returned extended, a panic of package \<open>reflect\<close>
  is the left summand of the result, and every loop is a recursive function over the
  fields or elements still to be visited.

  A write into a \<open>bytes.Buffer\<close> always returns a nil error, and \<open>binary.Write\<close> of a
  \<open>uint8\<close> or a \<open>uint32\<close> has no other way to fail, so the \<open>err\<close> variable of every
  marshal function is nil at each of its tests: the only abnormal outcome of the source is
  a panic. Go values may be cyclic through pointers; the values of the embedding are
  finite trees, so it describes the runs on acyclic values.
\<close>

subsection \<open>Bytes and the output buffer\<close>

type_synonym byte = "8 word"
type_synonym buffer = "byte list"

definition MAGIC :: byte where "MAGIC = 0x5"
definition VERSION :: byte where "VERSION = 0x7"

definition SX_ARRAY :: byte where "SX_ARRAY = 0x2"
definition SX_HASH :: byte where "SX_HASH = 0x3"
definition SX_REF :: byte where "SX_REF = 0x4"
definition SX_UNDEF :: byte where "SX_UNDEF = 0x5"
definition SX_SCALAR :: byte where "SX_SCALAR = 0xa"
definition SX_UTF8STR :: byte where "SX_UTF8STR = 0x17"

text \<open>The conversions \<open>uint8(n)\<close> and \<open>uint32(n)\<close> of a non-negative \<open>int\<close> truncate.\<close>

definition uint8 :: "nat \<Rightarrow> 8 word" where
  "uint8 n = of_nat n"

definition uint32 :: "nat \<Rightarrow> 32 word" where
  "uint32 n = of_nat n"

text \<open>\<open>binary.BigEndian.PutUint32\<close>: the four bytes of a 32-bit value, high byte first.\<close>

definition PutUint32 :: "32 word \<Rightarrow> byte list" where
  "PutUint32 v = [ucast (drop_bit 24 v), ucast (drop_bit 16 v), ucast (drop_bit 8 v), ucast v]"

text \<open>\<open>[]byte(s)\<close>: a Go string is a sequence of bytes.\<close>

definition bytes :: "string \<Rightarrow> byte list" where
  "bytes s = map of_char s"

text \<open>
  The writes the encoder performs on its buffer: \<open>binary.Write(e, binary.BigEndian, x)\<close>
  for a \<open>uint8\<close> and for a \<open>uint32\<close>, \<open>e.Write(p)\<close> and \<open>e.WriteString(s)\<close>.
\<close>

definition binary_Write_uint8 :: "buffer \<Rightarrow> 8 word \<Rightarrow> buffer" where
  "binary_Write_uint8 e x = e @ [x]"

definition binary_Write_uint32 :: "buffer \<Rightarrow> 32 word \<Rightarrow> buffer" where
  "binary_Write_uint32 e x = e @ PutUint32 x"

definition Write :: "buffer \<Rightarrow> byte list \<Rightarrow> buffer" where
  "Write e p = e @ p"

definition WriteString :: "buffer \<Rightarrow> string \<Rightarrow> buffer" where
  "WriteString e s = e @ bytes s"

subsection \<open>Values as package reflect shows them\<close>

datatype IntKind = Int | Int8 | Int16 | Int32 | Int64
datatype UintKind = Uint | Uint8 | Uint16 | Uint32 | Uint64 | Uintptr
datatype FloatKind = Float32 | Float64
datatype ComplexKind = Complex64 | Complex128

datatype Kind = Invalid | Bool | IntK IntKind | UintK UintKind | FloatK FloatKind
  | ComplexK ComplexKind | Array | Chan | Func | Interface | Map | Ptr | Slice | String
  | Struct | UnsafePointer

text \<open>
  A \<open>reflect.Value\<close> carries what the encoder can observe of it. \<open>Zero\<close> is the zero
  Value (of kind \<open>Invalid\<close>), which \<open>reflect.ValueOf(nil)\<close> and \<open>Elem\<close> of a nil pointer
  return. A signed or unsigned integer is the 64-bit value that \<open>Int()\<close> or \<open>Uint()\<close>
  returns. A floating-point number is represented by the text that
  \<open>strconv.FormatFloat(value.Float(), 'g', -1, bits)\<close> yields for it, floating-point
  arithmetic being outside the embedding. A map and a channel are represented by their
  length, the only thing the encoder can read of them. A struct is the list of its fields
  in declaration order, each with its name, the result of \<open>f.Tag.Get("storable")\<close> and
  its value.
\<close>

datatype Value =
    Zero
  | BoolV bool
  | IntV IntKind "64 word"
  | UintV UintKind "64 word"
  | FloatV FloatKind string
  | ComplexV ComplexKind
  | StringV string
  | NilPtr
  | PtrV Value
  | StructV "StructField list"
  | SliceV "Value list"
  | ArrayV "Value list"
  | MapV nat
  | ChanV nat
  | FuncV
  | InterfaceV Value
  | UnsafePointerV
and StructField =
    StructField (Name: string) (Tag_Get_storable: string) (FieldValue: Value)

text \<open>The panics of package \<open>reflect\<close>: a \<open>ValueError\<close> names the method and the kind.\<close>

datatype panic = ValueError string Kind

fun Kind_of :: "Value \<Rightarrow> Kind" where
  "Kind_of Zero = Invalid"
| "Kind_of (BoolV b) = Bool"
| "Kind_of (IntV k i) = IntK k"
| "Kind_of (UintV k u) = UintK k"
| "Kind_of (FloatV k s) = FloatK k"
| "Kind_of (ComplexV k) = ComplexK k"
| "Kind_of (StringV s) = String"
| "Kind_of NilPtr = Ptr"
| "Kind_of (PtrV v) = Ptr"
| "Kind_of (StructV fs) = Struct"
| "Kind_of (SliceV xs) = Slice"
| "Kind_of (ArrayV xs) = Array"
| "Kind_of (MapV n) = Map"
| "Kind_of (ChanV n) = Chan"
| "Kind_of FuncV = Func"
| "Kind_of (InterfaceV v) = Interface"
| "Kind_of UnsafePointerV = UnsafePointer"

text \<open>
  \<open>value.Elem()\<close> is called on pointers only; on a nil pointer it returns the zero
  Value.
\<close>

fun Elem :: "Value \<Rightarrow> Value" where
  "Elem (PtrV v) = v"
| "Elem v = Zero"

text \<open>
  \<open>value.Len()\<close> panics unless the kind is Array, Chan, Map, Slice or String, as in
  the Go releases of the repository's time (later ones also accept a pointer to an array).
\<close>

fun Len :: "Value \<Rightarrow> panic + nat" where
  "Len (StringV s) = Inr (length s)"
| "Len (SliceV xs) = Inr (length xs)"
| "Len (ArrayV xs) = Inr (length xs)"
| "Len (MapV n) = Inr n"
| "Len (ChanV n) = Inr n"
| "Len v = Inl (ValueError ''reflect.Value.Len'' (Kind_of v))"

text \<open>
  \<open>value.FieldByName(name)\<close> returns the first field declared under that name, and the
  zero Value when there is none. Field names of a Go struct are unique, except that
  several fields may be blank (\<open>_\<close>).
\<close>

fun FieldByName :: "StructField list \<Rightarrow> string \<Rightarrow> Value" where
  "FieldByName [] name = Zero"
| "FieldByName (f # fs) name =
     (if Name f = name then FieldValue f else FieldByName fs name)"

subsection \<open>Library functions: strings.Split and strconv\<close>

text \<open>
  \<open>strings.Split(s, sep)\<close> for a one-byte separator: the substrings between the
  separators, a single empty string for the empty input.
\<close>

fun Split :: "string \<Rightarrow> char \<Rightarrow> string list" where
  "Split [] sep = [[]]"
| "Split (c # cs) sep =
     (if c = sep then [] # Split cs sep
      else (case Split cs sep of [] \<Rightarrow> [[c]] | x # xs \<Rightarrow> (c # x) # xs))"

text \<open>
  \<open>strconv.FormatUint(u, 10)\<close> and \<open>strconv.FormatInt(i, 10)\<close>: the decimal digits,
  most significant first, with a minus sign for a negative number.
\<close>

function formatBits :: "nat \<Rightarrow> string" where
  "formatBits u =
     (if u < 10 then [char_of (48 + u)]
      else formatBits (u div 10) @ [char_of (48 + u mod 10)])"
  by pat_completeness auto
termination
  by (relation "measure id") auto

declare formatBits.simps [simp del]

definition FormatUint :: "64 word \<Rightarrow> string" where
  "FormatUint u = formatBits (unat u)"

definition FormatInt :: "64 word \<Rightarrow> string" where
  "FormatInt i =
     (if sint i < 0 then CHR ''-'' # formatBits (nat (- sint i))
      else formatBits (nat (sint i)))"

subsection \<open>The scalar emitters\<close>

definition marshalBool :: "buffer \<Rightarrow> bool \<Rightarrow> panic + buffer" where
  "marshalBool e b =
     (let e = binary_Write_uint8 e SX_SCALAR;
          e = binary_Write_uint8 e (uint8 1)
      in if b then Inr (Write e (bytes (FormatInt 1)))
         else Inr (Write e (bytes (FormatInt 0))))"

definition marshalString :: "buffer \<Rightarrow> string \<Rightarrow> panic + buffer" where
  "marshalString e s =
     (let e = binary_Write_uint8 e SX_SCALAR;
          e = binary_Write_uint8 e (uint8 (length s))
      in Inr (Write e (bytes s)))"

definition marshalInt :: "buffer \<Rightarrow> 64 word \<Rightarrow> panic + buffer" where
  "marshalInt e i =
     (let e = binary_Write_uint8 e SX_SCALAR;
          s = FormatInt i;
          e = binary_Write_uint8 e (uint8 (length s))
      in Inr (Write e (bytes s)))"

definition marshalUint :: "buffer \<Rightarrow> 64 word \<Rightarrow> panic + buffer" where
  "marshalUint e u =
     (let e = binary_Write_uint8 e SX_SCALAR;
          s = FormatUint u;
          e = binary_Write_uint8 e (uint8 (length s))
      in Inr (Write e (bytes s)))"

text \<open>The argument of \<open>marshalFloat\<close> is the text \<open>s\<close> that \<open>strconv.FormatFloat\<close> returns.\<close>

definition marshalFloat :: "buffer \<Rightarrow> string \<Rightarrow> panic + buffer" where
  "marshalFloat e s =
     (let e = binary_Write_uint8 e SX_SCALAR;
          e = binary_Write_uint8 e (uint8 (length s))
      in Inr (Write e (bytes s)))"

subsection \<open>Dispatch, structs and slices\<close>

text \<open>
  The test of the struct loop,
  \<open>len(fopts) > 0 && fopts[0] == "omitempty" && fieldValue.Len() == 0\<close>:
  \<open>Len\<close> is evaluated, and may panic, only when the first option is \<open>omitempty\<close>.
\<close>

definition omitempty :: "string list \<Rightarrow> Value \<Rightarrow> panic + bool" where
  "omitempty fopts fieldValue =
     (if length fopts > 0 \<and> fopts ! 0 = ''omitempty''
      then (case Len fieldValue of Inl p \<Rightarrow> Inl p | Inr n \<Rightarrow> Inr (n = 0))
      else Inr False)"

text \<open>
  \<open>marshalValue\<close> writes the reference tag for a pointer and goes on with the pointee,
  then switches on the kind; \<open>value.Type()\<close> panics on the zero Value. A kind without a
  case leaves the buffer as it is. \<open>marshalStruct_loop fs rest totalSize e2\<close> is the loop
  of \<open>marshalStruct\<close> over the fields \<open>rest\<close> still to visit, with the counter and the
  temporary buffer; \<open>marshalSlice_loop\<close> is the loop of \<open>marshalSlice\<close>.
  \<open>marshalStruct\<close> is called on structs only and \<open>marshalSlice\<close> on slices and
  arrays only; their remaining cases are the panics of \<open>NumField\<close>, \<open>Len\<close> and
  \<open>Index\<close> on another kind and are never reached from \<open>marshalValue\<close>.
\<close>

function marshalValue :: "buffer \<Rightarrow> Value \<Rightarrow> panic + buffer"
  and marshalStruct :: "buffer \<Rightarrow> Value \<Rightarrow> panic + buffer"
  and marshalStruct_loop ::
    "StructField list \<Rightarrow> StructField list \<Rightarrow> nat \<Rightarrow> buffer \<Rightarrow> panic + nat \<times> buffer"
  and marshalSlice :: "buffer \<Rightarrow> Value \<Rightarrow> panic + buffer"
  and marshalSlice_loop :: "buffer \<Rightarrow> Value list \<Rightarrow> panic + buffer"
where
  "marshalValue e v =
     (let (value, e) =
            (if Kind_of v = Ptr then (Elem v, binary_Write_uint8 e SX_REF) else (v, e))
      in case value of
           Zero \<Rightarrow> Inl (ValueError ''reflect.Value.Type'' Invalid)
         | StructV fs \<Rightarrow> marshalStruct e value
         | SliceV xs \<Rightarrow> marshalSlice e value
         | ArrayV xs \<Rightarrow> marshalSlice e value
         | BoolV b \<Rightarrow> marshalBool e b
         | StringV s \<Rightarrow> marshalString e s
         | IntV k i \<Rightarrow> marshalInt e i
         | UintV k u \<Rightarrow> marshalUint e u
         | FloatV k s \<Rightarrow> marshalFloat e s
         | _ \<Rightarrow> Inr e)"
| "marshalStruct e v =
     (case v of
        StructV fs \<Rightarrow>
          (let e = binary_Write_uint8 e SX_HASH
           in case marshalStruct_loop fs fs 0 [] of
                Inl p \<Rightarrow> Inl p
              | Inr (totalSize, e2) \<Rightarrow>
                  Inr (Write (binary_Write_uint32 e (uint32 totalSize)) e2))
      | _ \<Rightarrow> Inl (ValueError ''reflect.Type.NumField'' (Kind_of v)))"
| "marshalStruct_loop fs [] totalSize e2 = Inr (totalSize, e2)"
| "marshalStruct_loop fs (f # rest) totalSize e2 =
     (let fieldValue = FieldByName fs (Name f);
          fopts = Split (Tag_Get_storable f) CHR '',''
      in case omitempty fopts fieldValue of
           Inl p \<Rightarrow> Inl p
         | Inr True \<Rightarrow> marshalStruct_loop fs rest totalSize e2
         | Inr False \<Rightarrow>
             (case marshalValue e2 fieldValue of
                Inl p \<Rightarrow> Inl p
              | Inr e2 \<Rightarrow>
                  marshalStruct_loop fs rest (totalSize + 1)
                    (WriteString (binary_Write_uint32 e2 (uint32 (length (Name f))))
                       (Name f))))"
| "marshalSlice e v =
     (let e = binary_Write_uint8 e SX_ARRAY
      in case Len v of
           Inl p \<Rightarrow> Inl p
         | Inr n \<Rightarrow>
             (let e = binary_Write_uint32 e (uint32 n)
              in case v of
                   SliceV xs \<Rightarrow> marshalSlice_loop e xs
                 | ArrayV xs \<Rightarrow> marshalSlice_loop e xs
                 | _ \<Rightarrow> Inl (ValueError ''reflect.Value.Index'' (Kind_of v))))"
| "marshalSlice_loop e [] = Inr e"
| "marshalSlice_loop e (x # xs) =
     (case marshalValue e x of
        Inl p \<Rightarrow> Inl p
      | Inr e \<Rightarrow> marshalSlice_loop e xs)"
  by pat_completeness auto
termination
proof -
  have field: "size (FieldValue f) < size f" for f
    by (cases f) simp
  have found: "size (FieldByName fs name) < Suc (size_list size fs)" for fs name
    using field by (induction fs) (auto simp: less_Suc_eq trans_less_add1)
  have pointee: "x = Elem v \<Longrightarrow> size x \<le> size v" for x v
    by (cases v) auto
  show ?thesis
    by (relation "inv_image (less_than <*lex*> less_than <*lex*> less_than)
          (\<lambda>x. case x of
               Inl (Inl (e, v)) \<Rightarrow> (size v, 3::nat, 0::nat)
             | Inl (Inr (e, v)) \<Rightarrow> (size v, 2, 0)
             | Inr (Inl (fs, rest, t, e2)) \<Rightarrow> (Suc (size_list size fs), 1, length rest)
             | Inr (Inr (Inl (e, v))) \<Rightarrow> (size v, 2, 0)
             | Inr (Inr (Inr (e, xs))) \<Rightarrow> (Suc (size_list size xs), 1, 0))")
       (auto split: if_splits simp: found dest!: pointee)
qed

declare marshalValue.simps [simp del]
declare marshalStruct.simps [simp del]
declare marshalSlice.simps [simp del]

subsection \<open>Entry points\<close>

text \<open>
  The argument of \<open>Marshal\<close> and \<open>Encode\<close> has type \<open>interface{}\<close>: an interface value
  passed there hands over its dynamic value, and \<open>reflect.ValueOf\<close> of the nil interface
  is the zero Value.
\<close>

fun ValueOf :: "Value \<Rightarrow> Value" where
  "ValueOf (InterfaceV v) = ValueOf v"
| "ValueOf v = v"

definition marshal :: "buffer \<Rightarrow> Value \<Rightarrow> panic + buffer" where
  "marshal e v =
     (let e = binary_Write_uint8 e MAGIC;
          e = binary_Write_uint8 e VERSION
      in marshalValue e (ValueOf v))"

definition Marshal :: "Value \<Rightarrow> panic + byte list" where
  "Marshal v = marshal [] v"

text \<open>
  An \<open>Encoder\<close> owns a sink, a buffer and the last write error. The sink is an
  \<open>io.Writer\<close>: its \<open>Write\<close> method, a parameter here, takes the state of the sink and
  the bytes and returns the number of bytes written, an error or nil, and the new state.
\<close>

type_synonym error = string

record 's Encoder =
  enc_w :: 's
  enc_e :: buffer
  enc_err :: "error option"

type_synonym 's Writer = "'s \<Rightarrow> byte list \<Rightarrow> (nat \<times> error option) \<times> 's"

definition Reset :: "buffer \<Rightarrow> buffer" where
  "Reset e = []"

definition Encode :: "'s Writer \<Rightarrow> 's Encoder \<Rightarrow> Value \<Rightarrow> panic + error option \<times> 's Encoder" where
  "Encode w_Write enc v =
     (case marshal (Reset (enc_e enc)) v of
        Inl p \<Rightarrow> Inl p
      | Inr e \<Rightarrow>
          (let ((n, err), w) = w_Write (enc_w enc) e
           in Inr (err, enc\<lparr>enc_w := w, enc_e := e,
                            enc_err := (if err \<noteq> None then err else enc_err enc)\<rparr>)))"

subsection \<open>Notions used to state the properties\<close>

text \<open>
  \<open>binary.BigEndian.Uint32\<close>, the reader's view of a four-byte count or length at the
  head of a byte sequence.
\<close>

fun BigEndian_Uint32 :: "byte list \<Rightarrow> 32 word" where
  "BigEndian_Uint32 (b0 # b1 # b2 # b3 # bs) =
     push_bit 24 (ucast b0) OR push_bit 16 (ucast b1) OR push_bit 8 (ucast b2) OR ucast b3"
| "BigEndian_Uint32 bs = 0"

text \<open>
  A field is omitted when the test of the struct loop holds for it. The entry of a field
  is what one round of the loop appends to the temporary buffer: the encoding of the
  value found under the field's name, the length of the name, the name.
\<close>

definition omitted :: "StructField list \<Rightarrow> StructField \<Rightarrow> bool" where
  "omitted fs f \<longleftrightarrow>
     omitempty (Split (Tag_Get_storable f) CHR '','') (FieldByName fs (Name f)) = Inr True"

definition entry :: "StructField list \<Rightarrow> StructField \<Rightarrow> panic + byte list" where
  "entry fs f =
     (case marshalValue [] (FieldByName fs (Name f)) of
        Inl p \<Rightarrow> Inl p
      | Inr val \<Rightarrow> Inr (val @ PutUint32 (uint32 (length (Name f))) @ bytes (Name f)))"

text \<open>
  The same test on the field's own value, as it reads when the name of the field is that
  of no field before it.
\<close>

definition omits :: "StructField \<Rightarrow> bool" where
  "omits f \<longleftrightarrow>
     omitempty (Split (Tag_Get_storable f) CHR '','') (FieldValue f) = Inr True"

text \<open>
  Go exports an identifier that starts with an upper-case letter (here: of the ASCII
  range). The encoder never asks for it.
\<close>

definition IsExported :: "string \<Rightarrow> bool" where
  "IsExported name =
     (case name of [] \<Rightarrow> False | c # cs \<Rightarrow> 65 \<le> (of_char c :: nat) \<and> (of_char c :: nat) \<le> 90)"


section \<open>Basic facts\<close>

lemmas write_defs =
  binary_Write_uint8_def binary_Write_uint32_def Write_def WriteString_def

lemma marshalValue_PtrV:
  "marshalValue e (PtrV v) =
     (if Kind_of v = Ptr then Inr (e @ [SX_REF])
      else marshalValue (e @ [SX_REF]) v)"
  by (cases v) (simp_all add: marshalValue.simps binary_Write_uint8_def)

lemma marshalValue_simps:
  "marshalValue e Zero = Inl (ValueError ''reflect.Value.Type'' Invalid)"
  "marshalValue e NilPtr = Inl (ValueError ''reflect.Value.Type'' Invalid)"
  "marshalValue e (BoolV b) = marshalBool e b"
  "marshalValue e (IntV ik i) = marshalInt e i"
  "marshalValue e (UintV uk u) = marshalUint e u"
  "marshalValue e (FloatV fk s) = marshalFloat e s"
  "marshalValue e (ComplexV ck) = Inr e"
  "marshalValue e (StringV s) = marshalString e s"
  "marshalValue e (StructV fs) = marshalStruct e (StructV fs)"
  "marshalValue e (SliceV xs) = marshalSlice e (SliceV xs)"
  "marshalValue e (ArrayV xs) = marshalSlice e (ArrayV xs)"
  "marshalValue e (MapV n) = Inr e"
  "marshalValue e (ChanV n) = Inr e"
  "marshalValue e FuncV = Inr e"
  "marshalValue e (InterfaceV v) = Inr e"
  "marshalValue e UnsafePointerV = Inr e"
  by (simp_all add: marshalValue.simps)

lemma marshalStruct_StructV:
  "marshalStruct e (StructV fs) =
     (case marshalStruct_loop fs fs 0 [] of
        Inl p \<Rightarrow> Inl p
      | Inr (totalSize, e2) \<Rightarrow> Inr (e @ SX_HASH # PutUint32 (uint32 totalSize) @ e2))"
  by (simp add: marshalStruct.simps write_defs split: sum.splits)

lemma marshalSlice_SliceV:
  "marshalSlice e (SliceV xs) =
     marshalSlice_loop (e @ SX_ARRAY # PutUint32 (uint32 (length xs))) xs"
  by (simp add: marshalSlice.simps write_defs)

lemma marshalSlice_ArrayV:
  "marshalSlice e (ArrayV xs) =
     marshalSlice_loop (e @ SX_ARRAY # PutUint32 (uint32 (length xs))) xs"
  by (simp add: marshalSlice.simps write_defs)

lemma Uint32_PutUint32: "BigEndian_Uint32 (PutUint32 w @ bs) = w"
  unfolding PutUint32_def
  apply simp
  apply (rule bit_word_eqI)
  subgoal for n
    by (cases "n < 8"; cases "n < 16"; cases "n < 24") (auto simp: bit_simps)
  done

lemma unat_uint32: "n < 2 ^ 32 \<Longrightarrow> unat (uint32 n) = n"
  by (simp add: uint32_def unsigned_of_nat take_bit_nat_eq_self)

subsection \<open>What is already in the buffer does not matter\<close>

text \<open>
  Every emitter only appends: its result on a buffer \<open>e\<close> is \<open>e\<close> followed by its result
  on the empty buffer, and it panics on the one exactly when it panics on the other.
  The equations are kept out of the simplifier, where they would loop.
\<close>

lemma scalar_prefix:
  "marshalBool e b = map_sum id ((@) e) (marshalBool [] b)"
  "marshalString e s = map_sum id ((@) e) (marshalString [] s)"
  "marshalInt e i = map_sum id ((@) e) (marshalInt [] i)"
  "marshalUint e u = map_sum id ((@) e) (marshalUint [] u)"
  "marshalFloat e s = map_sum id ((@) e) (marshalFloat [] s)"
  by (simp_all add: marshalBool_def marshalString_def marshalInt_def marshalUint_def
        marshalFloat_def write_defs Let_def)

lemma marshalSlice_loop_prefix:
  assumes "\<And>x e. x \<in> set xs \<Longrightarrow> marshalValue e x = map_sum id ((@) e) (marshalValue [] x)"
  shows "marshalSlice_loop e xs = map_sum id ((@) e) (marshalSlice_loop [] xs)"
  using assms
proof (induction xs arbitrary: e)
  case Nil
  then show ?case by simp
next
  case (Cons x xs)
  have hd: "marshalValue e x = map_sum id ((@) e) (marshalValue [] x)"
    by (rule Cons.prems) simp
  have tl: "marshalSlice_loop e' xs = map_sum id ((@) e') (marshalSlice_loop [] xs)" for e'
    by (rule Cons.IH, rule Cons.prems) simp
  show ?case
  proof (cases "marshalValue [] x")
    case (Inl p)
    then show ?thesis by (simp add: hd)
  next
    case (Inr b)
    then show ?thesis
      by (cases "marshalSlice_loop [] xs") (simp_all add: hd tl [of "e @ b"] tl [of b])
  qed
qed

lemma marshalValue_prefix:
  "marshalValue e v = map_sum id ((@) e) (marshalValue [] v)"
proof -
  have "\<forall>e. marshalValue e v = map_sum id ((@) e) (marshalValue [] v)"
  proof (induction v rule: Value.induct [where ?P2.0 = "\<lambda>f. True"])
    case (PtrV x)
    show ?case
    proof (cases "Kind_of x = Ptr")
      case True
      then show ?thesis by (simp add: marshalValue_PtrV)
    next
      case False
      have *: "marshalValue e' x = map_sum id ((@) e') (marshalValue [] x)" for e'
        using PtrV by (rule spec)
      show ?thesis
        by (cases "marshalValue [] x")
           (simp_all add: marshalValue_PtrV False * [of "[SX_REF]"] * [of "e @ [SX_REF]" for e])
    qed
  next
    case (StructV fs)
    show ?case
      by (simp add: marshalValue_simps marshalStruct_StructV split: sum.splits)
  next
    case (SliceV xs)
    then have *: "marshalSlice_loop e xs = map_sum id ((@) e) (marshalSlice_loop [] xs)" for e
      by (intro marshalSlice_loop_prefix) blast
    show ?case
      by (cases "marshalSlice_loop [] xs")
         (simp_all add: marshalValue_simps marshalSlice_SliceV
            * [of "e @ SX_ARRAY # PutUint32 (uint32 (length xs))" for e]
            * [of "SX_ARRAY # PutUint32 (uint32 (length xs))"])
  next
    case (ArrayV xs)
    then have *: "marshalSlice_loop e xs = map_sum id ((@) e) (marshalSlice_loop [] xs)" for e
      by (intro marshalSlice_loop_prefix) blast
    show ?case
      by (cases "marshalSlice_loop [] xs")
         (simp_all add: marshalValue_simps marshalSlice_ArrayV
            * [of "e @ SX_ARRAY # PutUint32 (uint32 (length xs))" for e]
            * [of "SX_ARRAY # PutUint32 (uint32 (length xs))"])
  qed (simp_all add: marshalValue_simps, (intro allI scalar_prefix [unfolded id_def])+)
  then show ?thesis by (rule spec)
qed

lemma marshalValue_Inr_prefix:
  "marshalValue [] v = Inr b \<Longrightarrow> marshalValue e v = Inr (e @ b)"
  using marshalValue_prefix [of e v] by simp

lemma marshalValue_Inl_prefix:
  "marshalValue [] v = Inl p \<Longrightarrow> marshalValue e v = Inl p"
  using marshalValue_prefix [of e v] by simp

section \<open>The two entry points\<close>

text \<open>
  C10. \<open>Encode\<close> hands to the sink exactly the bytes that \<open>Marshal\<close> returns for the same
  value: when the sink accepts them, the new state of the sink is the one its \<open>Write\<close>
  yields on these bytes. Nothing of this depends on what the buffer of the Encoder held
  from earlier calls, since \<open>Encode\<close> resets it first.
\<close>

theorem Encode_writes_what_Marshal_returns:
  assumes "Marshal v = Inr bs"
    and "w_Write (enc_w enc) bs = ((n, None), w')"
  shows "Encode w_Write enc v = Inr (None, enc\<lparr>enc_w := w', enc_e := bs\<rparr>)"
  using assms by (simp add: Encode_def Marshal_def Reset_def)

theorem Encode_writes_what_Marshal_returns_witness:
  "Marshal (StringV ''Kevin'') = Inr [5, 7, 10, 5, 75, 101, 118, 105, 110]
   \<and> Encode (\<lambda>w p. ((length p, None), w @ p))
        \<lparr>enc_w = [1, 2], enc_e = [9, 9, 9], enc_err = None\<rparr> (StringV ''Kevin'')
     = Inr (None, \<lparr>enc_w = [1, 2, 5, 7, 10, 5, 75, 101, 118, 105, 110],
                    enc_e = [5, 7, 10, 5, 75, 101, 118, 105, 110], enc_err = None\<rparr>)"
proof -
  have m: "Marshal (StringV ''Kevin'') = Inr [5, 7, 10, 5, 75, 101, 118, 105, 110]"
    by code_simp
  show ?thesis
    using m Encode_writes_what_Marshal_returns
      [of "StringV ''Kevin''" "[5, 7, 10, 5, 75, 101, 118, 105, 110]"
          "\<lambda>w p. ((length p, None), w @ p)"
          "\<lparr>enc_w = [1, 2], enc_e = [9, 9, 9], enc_err = None\<rparr>" 9
          "[1, 2, 5, 7, 10, 5, 75, 101, 118, 105, 110]"]
    by simp
qed

section \<open>Pointers and kinds without a case\<close>

lemma ValueOf_id: "Kind_of v \<noteq> Interface \<Longrightarrow> ValueOf v = v"
  by (cases v) simp_all

text \<open>
  C7, as stated, fails: it asks that the encoding of a pointer be the reference tag
  followed by the encoding of the pointee. \<open>marshalValue\<close> dereferences once and then
  switches on the kind of the pointee, and the switch has no case for a pointer: for a
  pointer to a pointer to the string \<open>Kevin\<close> only the reference tag follows the header,
  although the inner pointer encodes on its own.
\<close>

theorem pointer_to_pointer_writes_REF_only:
  "Marshal (PtrV (StringV ''Kevin'')) = Inr [5, 7, 4, 10, 5, 75, 101, 118, 105, 110]
   \<and> Marshal (PtrV (PtrV (StringV ''Kevin''))) = Inr [5, 7, 4]
   \<and> [5, 7, 4 :: byte] \<noteq> [5, 7] @ SX_REF # drop 2 [5, 7, 4, 10, 5, 75, 101, 118, 105, 110]"
  by code_simp

text \<open>
  C7, amended. For every pointer whose pointee is neither a pointer nor an interface
  value and encodes successfully, the output is the header, the tag \<open>SX_REF\<close> and then
  the encoding of the pointee without its own header.
\<close>

theorem pointer_is_REF_then_pointee:
  assumes "Marshal v = Inr out" and "Kind_of v \<noteq> Ptr" and "Kind_of v \<noteq> Interface"
  shows "Marshal (PtrV v) = Inr ([5, 7] @ SX_REF # drop 2 out)"
proof -
  have v: "ValueOf v = v" using assms(3) by (rule ValueOf_id)
  obtain body where body: "marshalValue [] v = Inr body"
    using assms(1) v marshalValue_prefix [of "[MAGIC, VERSION]" v]
    by (cases "marshalValue [] v") (simp_all add: Marshal_def marshal_def write_defs)
  have at: "marshalValue e v = Inr (e @ body)" for e
    using body by (rule marshalValue_Inr_prefix)
  have out: "out = [5, 7] @ body"
    using assms(1) v at [of "[MAGIC, VERSION]"]
    by (simp add: Marshal_def marshal_def write_defs MAGIC_def VERSION_def)
  show ?thesis
    using assms(2) out at [of "[MAGIC, VERSION, SX_REF]"]
    by (simp add: Marshal_def marshal_def write_defs MAGIC_def VERSION_def marshalValue_PtrV)
qed

theorem pointer_is_REF_then_pointee_witness:
  "Marshal (StructV [StructField ''Name'' [] (StringV ''Kevin'')])
     = Inr [5, 7, 3, 0, 0, 0, 1, 10, 5, 75, 101, 118, 105, 110, 0, 0, 0, 4, 78, 97, 109, 101]
   \<and> Kind_of (StructV [StructField ''Name'' [] (StringV ''Kevin'')]) \<noteq> Ptr
   \<and> Kind_of (StructV [StructField ''Name'' [] (StringV ''Kevin'')]) \<noteq> Interface
   \<and> Marshal (PtrV (StructV [StructField ''Name'' [] (StringV ''Kevin'')]))
     = Inr ([5, 7] @ SX_REF #
         drop 2 [5, 7, 3, 0, 0, 0, 1, 10, 5, 75, 101, 118, 105, 110, 0, 0, 0, 4, 78, 97, 109, 101])"
proof -
  have m: "Marshal (StructV [StructField ''Name'' [] (StringV ''Kevin'')])
     = Inr [5, 7, 3, 0, 0, 0, 1, 10, 5, 75, 101, 118, 105, 110, 0, 0, 0, 4, 78, 97, 109, 101]"
    by code_simp
  show ?thesis
    using m pointer_is_REF_then_pointee [OF m] by simp
qed




section \<open>Scalars\<close>

text \<open>A decimal numeral below \<open>10 ^ k\<close> has at most \<open>k\<close> digits.\<close>

lemma formatBits_length: "u < 10 ^ k \<Longrightarrow> 0 < k \<Longrightarrow> length (formatBits u) \<le> k"
proof (induction k arbitrary: u)
  case 0
  then show ?case by simp
next
  case (Suc k)
  show ?case
  proof (cases "u < 10")
    case True
    then show ?thesis by (simp add: formatBits.simps [of u])
  next
    case False
    then have k: "0 < k" using Suc.prems(1) by (cases k) simp_all
    have "u div 10 < 10 ^ k" using Suc.prems(1) by (simp add: less_mult_imp_div_less mult.commute)
    then have "length (formatBits (u div 10)) \<le> k" using k by (rule Suc.IH)
    then show ?thesis using False by (simp add: formatBits.simps [of u])
  qed
qed

lemma FormatUint_length: "length (FormatUint u) \<le> 20"
proof -
  have "unat u < 2 ^ 64" using unsigned_less [of u] by simp
  then have "unat u < 10 ^ 20" by simp
  then show ?thesis unfolding FormatUint_def by (rule formatBits_length) simp
qed

lemma FormatInt_length: "length (FormatInt i) \<le> 20"
proof -
  have lo: "- (2 ^ 63) \<le> sint i" using sint_ge [of i] by simp
  have hi: "sint i < 2 ^ 63" using sint_lt [of i] by simp
  show ?thesis
  proof (cases "sint i < 0")
    case True
    have "nat (- sint i) < 10 ^ 19" using lo by simp
    then have "length (formatBits (nat (- sint i))) \<le> 19" by (rule formatBits_length) simp
    then show ?thesis using True by (simp add: FormatInt_def)
  next
    case False
    have "nat (sint i) < 10 ^ 19" using hi by simp
    then have "length (formatBits (nat (sint i))) \<le> 19" by (rule formatBits_length) simp
    then show ?thesis using False by (simp add: FormatInt_def)
  qed
qed

text \<open>
  The wire shape of a scalar: the tag \<open>SX_SCALAR\<close>, one byte of length and the text.
  The text of a boolean is one byte, that of an integer at most 20 bytes, so for them the
  length byte is the length of the text; for a string that holds below 256 bytes.
\<close>

lemma uint8_length: "length s < 256 \<Longrightarrow> unat (uint8 (length s)) = length (bytes s)"
  by (simp add: uint8_def bytes_def unsigned_of_nat take_bit_nat_eq_self)

lemma FormatInt_0_1: "FormatInt 0 = ''0''" "FormatInt 1 = ''1''"
  by code_simp+

lemma marshalBool_shape:
  "marshalBool e b = Inr (e @ [SX_SCALAR, 1] @ bytes (if b then ''1'' else ''0''))"
  by (simp add: marshalBool_def write_defs uint8_def FormatInt_0_1 Let_def)

lemma marshalInt_shape:
  "marshalInt e i = Inr (e @ SX_SCALAR # uint8 (length (FormatInt i)) # bytes (FormatInt i))
   \<and> unat (uint8 (length (FormatInt i))) = length (bytes (FormatInt i))"
  using FormatInt_length [of i]
  by (simp add: marshalInt_def write_defs Let_def uint8_length)

lemma marshalUint_shape:
  "marshalUint e u = Inr (e @ SX_SCALAR # uint8 (length (FormatUint u)) # bytes (FormatUint u))
   \<and> unat (uint8 (length (FormatUint u))) = length (bytes (FormatUint u))"
  using FormatUint_length [of u]
  by (simp add: marshalUint_def write_defs Let_def uint8_length)

lemma marshalString_short:
  assumes "length s < 256"
  shows "marshalString e s = Inr (e @ SX_SCALAR # uint8 (length s) # bytes s)
       \<and> unat (uint8 (length s)) = length (bytes s)"
  using assms by (simp add: marshalString_def write_defs uint8_length)

text \<open>
  C6 fails at a string of 256 bytes: the length byte is \<open>uint8(value.Len())\<close>, which is
  0 there, and it is followed by all 256 bytes of the string instead of by as many bytes
  as it announces.
\<close>

theorem long_string_length_byte_wraps:
  "Marshal (StringV (replicate 256 CHR ''a''))
     = Inr ([5, 7, 10, 0] @ replicate 256 97)"
  by (simp add: Marshal_def marshal_def marshalValue_simps marshalString_def write_defs
        uint8_def bytes_def MAGIC_def VERSION_def SX_SCALAR_def)

section \<open>Slices and arrays\<close>

text \<open>
  When every element encodes, the loop appends the encodings in order, and the slice is
  the tag, the truncated count and these encodings.
\<close>

lemma marshalSlice_loop_elements:
  assumes "map (marshalValue []) xs = map Inr es"
  shows "marshalSlice_loop e xs = Inr (e @ concat es)"
  using assms
proof (induction xs arbitrary: e es)
  case Nil
  then show ?case by simp
next
  case (Cons x xs)
  then obtain b es' where es: "es = b # es'" and b: "marshalValue [] x = Inr b"
    and rest: "map (marshalValue []) xs = map Inr es'"
    by (cases es) auto
  have "marshalValue e x = Inr (e @ b)"
    using b by (rule marshalValue_Inr_prefix)
  then show ?case
    using Cons.IH [OF rest, of "e @ b"] es by simp
qed

lemma marshalSlice_elements:
  assumes "map (marshalValue []) xs = map Inr es"
  shows "marshalSlice e (SliceV xs)
           = Inr (e @ SX_ARRAY # PutUint32 (uint32 (length xs)) @ concat es)"
    and "marshalSlice e (ArrayV xs)
           = Inr (e @ SX_ARRAY # PutUint32 (uint32 (length xs)) @ concat es)"
  using marshalSlice_loop_elements [OF assms]
  by (simp_all add: marshalSlice_SliceV marshalSlice_ArrayV)

lemma PutUint32_wraps: "PutUint32 (uint32 (2 ^ 32)) = [0, 0, 0, 0]"
  by (simp add: PutUint32_def uint32_def)

lemma marshalValue_empty_struct: "marshalValue [] (StructV []) = Inr [SX_HASH, 0, 0, 0, 0]"
  by (simp add: marshalValue_simps marshalStruct_StructV PutUint32_def uint32_def)

text \<open>
  C5, as stated, fails: the count written is \<open>uint32(n)\<close>, which is not \<open>n\<close> from
  \<open>2 ^ 32\<close> elements on. A slice of \<open>2 ^ 32\<close> values of type \<open>struct{}\<close> takes no
  memory for its elements; its count field reads 0.
\<close>

theorem slice_count_wraps:
  "marshalSlice [] (SliceV (replicate (2 ^ 32) (StructV [])))
     = Inr ([SX_ARRAY, 0, 0, 0, 0] @ concat (replicate (2 ^ 32) [SX_HASH, 0, 0, 0, 0]))
   \<and> unat (BigEndian_Uint32 [0, 0, 0, 0]) \<noteq> length (replicate (2 ^ 32) (StructV []))"
proof -
  define n :: nat where "n = 2 ^ 32"
  have "map (marshalValue []) (replicate n (StructV []))
          = map Inr (replicate n [SX_HASH, 0, 0, 0, 0])"
    by (simp only: map_replicate marshalValue_empty_struct)
  from marshalSlice_elements(1) [OF this, of "[]"]
  have "marshalSlice [] (SliceV (replicate n (StructV [])))
          = Inr ([SX_ARRAY, 0, 0, 0, 0] @ concat (replicate n [SX_HASH, 0, 0, 0, 0]))"
    by (simp only: length_replicate n_def PutUint32_wraps append_Nil append_Cons)
  moreover have "unat (BigEndian_Uint32 [0, 0, 0, 0]) \<noteq> length (replicate n (StructV []))"
    by (simp add: n_def)
  ultimately show ?thesis unfolding n_def by (rule conjI)
qed

text \<open>
  C5, amended. For every slice or array of length \<open>n < 2 ^ 32\<close> whose elements encode,
  the encoder writes the tag \<open>SX_ARRAY\<close> (2), a four-byte big-endian count that reads
  \<open>n\<close>, and then the encodings of the elements in source order with nothing between
  them; an empty slice or array is the tag and a zero count.
\<close>

theorem slice_is_tag_count_elements:
  assumes "length xs < 2 ^ 32" and "map (marshalValue []) xs = map Inr es"
  shows "marshalSlice e (SliceV xs)
           = Inr (e @ [2] @ PutUint32 (uint32 (length xs)) @ concat es)
       \<and> marshalSlice e (ArrayV xs)
           = Inr (e @ [2] @ PutUint32 (uint32 (length xs)) @ concat es)
       \<and> unat (BigEndian_Uint32 (PutUint32 (uint32 (length xs)) @ concat es)) = length xs
       \<and> marshalSlice e (SliceV []) = Inr (e @ [2, 0, 0, 0, 0])
       \<and> marshalSlice e (ArrayV []) = Inr (e @ [2, 0, 0, 0, 0])"
proof -
  have count: "unat (BigEndian_Uint32 (PutUint32 (uint32 (length xs)) @ concat es)) = length xs"
    using assms(1) by (simp only: Uint32_PutUint32 unat_uint32)
  have empty: "marshalSlice e (SliceV []) = Inr (e @ [2, 0, 0, 0, 0])"
    "marshalSlice e (ArrayV []) = Inr (e @ [2, 0, 0, 0, 0])"
    by (simp_all add: marshalSlice_SliceV marshalSlice_ArrayV SX_ARRAY_def PutUint32_def
          uint32_def)
  show ?thesis
    using marshalSlice_elements [OF assms(2), of e] count empty
    by (simp add: SX_ARRAY_def)
qed

theorem slice_is_tag_count_elements_witness:
  "length [StringV ''hey'', StringV ''there''] < 2 ^ 32
   \<and> map (marshalValue []) [StringV ''hey'', StringV ''there'']
       = map Inr [[10, 3, 104, 101, 121], [10, 5, 116, 104, 101, 114, 101]]
   \<and> marshalSlice [5, 7] (SliceV [StringV ''hey'', StringV ''there''])
       = Inr [5, 7, 2, 0, 0, 0, 2, 10, 3, 104, 101, 121, 10, 5, 116, 104, 101, 114, 101]
   \<and> marshalSlice [5, 7] (ArrayV [StringV ''hey'', StringV ''there''])
       = Inr [5, 7, 2, 0, 0, 0, 2, 10, 3, 104, 101, 121, 10, 5, 116, 104, 101, 114, 101]
   \<and> marshalSlice [5, 7] (SliceV []) = Inr [5, 7, 2, 0, 0, 0, 0]"
proof -
  have len: "length [StringV ''hey'', StringV ''there''] < 2 ^ 32"
    by simp
  have elems: "map (marshalValue []) [StringV ''hey'', StringV ''there'']
       = map Inr [[10, 3, 104, 101, 121], [10, 5, 116, 104, 101, 114, 101]]"
    by code_simp
  have count: "PutUint32 (uint32 (Suc (Suc 0))) = [0, 0, 0, 2]"
    by (simp add: PutUint32_def uint32_def)
  show ?thesis
    using len elems slice_is_tag_count_elements [OF len elems, of "[5, 7]"]
    by (simp add: count)
qed

section \<open>Structs\<close>

text \<open>
  The counter and the temporary buffer of the struct loop only grow: a run from any
  state is the run from the empty state, shifted.
\<close>

lemma marshalStruct_loop_acc:
  "marshalStruct_loop fs rest t e2 =
     map_sum id (\<lambda>(n, b). (t + n, e2 @ b)) (marshalStruct_loop fs rest 0 [])"
proof (induction rest arbitrary: t e2)
  case Nil
  then show ?case by simp
next
  case (Cons f rest)
  let ?fv = "FieldByName fs (Name f)"
  let ?key = "PutUint32 (uint32 (length (Name f))) @ bytes (Name f)"
  show ?case
  proof (cases "omitempty (Split (Tag_Get_storable f) CHR '','') ?fv")
    case (Inl p)
    then show ?thesis by simp
  next
    case (Inr skip)
    show ?thesis
    proof (cases skip)
      case True
      then show ?thesis using Inr Cons.IH [of t e2] by simp
    next
      case False
      show ?thesis
      proof (cases "marshalValue [] ?fv")
        case (Inl p)
        then show ?thesis
          using Inr False marshalValue_Inl_prefix [of ?fv p e2] by simp
      next
        case val: (Inr b)
        have 1: "marshalValue e2 ?fv = Inr (e2 @ b)"
          using val by (rule marshalValue_Inr_prefix)
        show ?thesis
          using Inr False val 1
            Cons.IH [of "Suc t" "e2 @ b @ ?key"] Cons.IH [of "Suc 0" "b @ ?key"]
          by (cases "marshalStruct_loop fs rest 0 []") (auto simp: write_defs)
      qed
    qed
  qed
qed

text \<open>
  A successful run of the loop appends the entries of the fields that are not omitted, in
  the order of the fields, and counts them.
\<close>

lemma marshalStruct_loop_entries:
  assumes "marshalStruct_loop fs rest 0 [] = Inr (n, b)"
  shows "\<exists>es. map (entry fs) (filter (\<lambda>f. \<not> omitted fs f) rest) = map Inr es
           \<and> n = length es \<and> b = concat es"
  using assms
proof (induction rest arbitrary: n b)
  case Nil
  then show ?case by simp
next
  case (Cons f rest)
  let ?fv = "FieldByName fs (Name f)"
  let ?key = "PutUint32 (uint32 (length (Name f))) @ bytes (Name f)"
  obtain skip where skip: "omitempty (Split (Tag_Get_storable f) CHR '','') ?fv = Inr skip"
    using Cons.prems by (cases "omitempty (Split (Tag_Get_storable f) CHR '','') ?fv") simp_all
  show ?case
  proof (cases skip)
    case True
    then have "omitted fs f" using skip by (simp add: omitted_def)
    moreover have "marshalStruct_loop fs rest 0 [] = Inr (n, b)"
      using Cons.prems skip True by simp
    ultimately show ?thesis using Cons.IH by simp
  next
    case False
    then have keep: "\<not> omitted fs f" using skip by (simp add: omitted_def)
    obtain val where val: "marshalValue [] ?fv = Inr val"
      using Cons.prems skip False by (cases "marshalValue [] ?fv") simp_all
    have "marshalStruct_loop fs rest (Suc 0) (val @ ?key) = Inr (n, b)"
      using Cons.prems skip False val by (simp add: write_defs)
    then obtain n' b' where rest: "marshalStruct_loop fs rest 0 [] = Inr (n', b')"
      and n: "n = Suc n'" and b: "b = (val @ ?key) @ b'"
      using marshalStruct_loop_acc [of fs rest "Suc 0" "val @ ?key"]
      by (cases "marshalStruct_loop fs rest 0 []") auto
    from Cons.IH [OF rest] obtain es where
      es: "map (entry fs) (filter (\<lambda>f. \<not> omitted fs f) rest) = map Inr es"
        "n' = length es" "b' = concat es"
      by blast
    have "entry fs f = Inr (val @ ?key)"
      using val by (simp add: entry_def)
    then have "map (entry fs) (filter (\<lambda>f. \<not> omitted fs f) (f # rest)) = map Inr ((val @ ?key) # es)"
      using keep es(1) by simp
    moreover have "n = length ((val @ ?key) # es)" using n es(2) by simp
    moreover have "b = concat ((val @ ?key) # es)" using b es(3) by simp
    ultimately show ?thesis by blast
  qed
qed

lemma marshalStruct_entries:
  assumes "marshalStruct e (StructV fs) = Inr out"
  shows "\<exists>es. map (entry fs) (filter (\<lambda>f. \<not> omitted fs f) fs) = map Inr es
           \<and> out = e @ SX_HASH # PutUint32 (uint32 (length es)) @ concat es"
proof -
  obtain n b where loop: "marshalStruct_loop fs fs 0 [] = Inr (n, b)"
    and out: "out = e @ SX_HASH # PutUint32 (uint32 n) @ b"
    using assms by (auto simp: marshalStruct_StructV split: sum.splits)
  from marshalStruct_loop_entries [OF loop] show ?thesis
    using out by blast
qed

text \<open>
  The loop over a concatenation runs the loop over the first part and goes on with the
  second; it depends on the struct only through the values found under the names of the
  fields it visits.
\<close>

lemma marshalStruct_loop_append:
  "marshalStruct_loop fs (r1 @ r2) t e2 =
     (case marshalStruct_loop fs r1 t e2 of
        Inl p \<Rightarrow> Inl p
      | Inr (t', e2') \<Rightarrow> marshalStruct_loop fs r2 t' e2')"
  by (induction r1 arbitrary: t e2) (auto split: sum.splits bool.splits simp: Let_def)

lemma marshalStruct_loop_cong:
  assumes "\<And>g. g \<in> set rest \<Longrightarrow> FieldByName fs (Name g) = FieldByName fs' (Name g)"
  shows "marshalStruct_loop fs rest t e2 = marshalStruct_loop fs' rest t e2"
  using assms
  by (induction rest arbitrary: t e2) (auto split: sum.splits bool.splits simp: Let_def)

lemma FieldByName_own:
  "Name f \<notin> Name ` set fs1 \<Longrightarrow> FieldByName (fs1 @ f # fs2) (Name f) = FieldValue f"
  by (induction fs1) auto

lemma FieldByName_other:
  "name \<noteq> Name f \<Longrightarrow> FieldByName (fs1 @ f # fs2) name = FieldByName (fs1 @ fs2) name"
  by (induction fs1) auto

lemma FieldByName_distinct:
  "distinct (map Name fs) \<Longrightarrow> f \<in> set fs \<Longrightarrow> FieldByName fs (Name f) = FieldValue f"
  by (induction fs) (auto simp: image_iff)

text \<open>
  The loop succeeds when no test of the omit directive panics and the value of every
  field that is kept encodes.
\<close>

lemma marshalStruct_loop_succeeds:
  assumes "\<And>f. f \<in> set rest \<Longrightarrow>
             \<exists>skip. omitempty (Split (Tag_Get_storable f) CHR '','') (FieldByName fs (Name f))
                     = Inr skip"
    and "\<And>f. f \<in> set rest \<Longrightarrow> \<not> omitted fs f \<Longrightarrow>
             \<exists>val. marshalValue [] (FieldByName fs (Name f)) = Inr val"
  shows "\<exists>n b. marshalStruct_loop fs rest 0 [] = Inr (n, b)"
  using assms
proof (induction rest)
  case Nil
  then show ?case by simp
next
  case (Cons f rest)
  let ?fv = "FieldByName fs (Name f)"
  let ?key = "PutUint32 (uint32 (length (Name f))) @ bytes (Name f)"
  obtain n b where rest: "marshalStruct_loop fs rest 0 [] = Inr (n, b)"
    using Cons.IH Cons.prems by (metis list.set_intros(2))
  obtain skip where skip: "omitempty (Split (Tag_Get_storable f) CHR '','') ?fv = Inr skip"
    using Cons.prems(1) by (metis list.set_intros(1))
  show ?case
  proof (cases skip)
    case True
    then show ?thesis using skip rest by simp
  next
    case False
    then have "\<not> omitted fs f" using skip by (simp add: omitted_def)
    then obtain val where val: "marshalValue [] ?fv = Inr val"
      using Cons.prems(2) by (metis list.set_intros(1))
    have "marshalStruct_loop fs rest (Suc 0) (val @ ?key) = Inr (Suc n, (val @ ?key) @ b)"
      using rest marshalStruct_loop_acc [of fs rest "Suc 0" "val @ ?key"] by simp
    then show ?thesis
      using skip False val by (simp add: write_defs)
  qed
qed

text \<open>Each entry is the encoding of a value followed by the length of a name and the name.\<close>

lemma entries_values:
  assumes "map (entry fs) ks = map Inr es"
  shows "\<exists>vals. map (\<lambda>f. marshalValue [] (FieldByName fs (Name f))) ks = map Inr vals
           \<and> es = map2 (\<lambda>val f. val @ PutUint32 (uint32 (length (Name f))) @ bytes (Name f))
                    vals ks"
  using assms
proof (induction ks arbitrary: es)
  case Nil
  then show ?case by simp
next
  case (Cons k ks)
  then obtain x es' where es: "es = x # es'" and x: "entry fs k = Inr x"
    and rest: "map (entry fs) ks = map Inr es'"
    by (cases es) auto
  obtain val where val: "marshalValue [] (FieldByName fs (Name k)) = Inr val"
    and xv: "x = val @ PutUint32 (uint32 (length (Name k))) @ bytes (Name k)"
    using x by (auto simp: entry_def split: sum.splits)
  from Cons.IH [OF rest] obtain vals where
    vals: "map (\<lambda>f. marshalValue [] (FieldByName fs (Name f))) ks = map Inr vals"
      "es' = map2 (\<lambda>val f. val @ PutUint32 (uint32 (length (Name f))) @ bytes (Name f)) vals ks"
    by blast
  have "map (\<lambda>f. marshalValue [] (FieldByName fs (Name f))) (k # ks) = map Inr (val # vals)"
    using val vals(1) by simp
  moreover have "es = map2 (\<lambda>val f. val @ PutUint32 (uint32 (length (Name f))) @ bytes (Name f))
                    (val # vals) (k # ks)"
    using es xv vals(2) by simp
  ultimately show ?case by blast
qed

text \<open>
  C1. For every struct that \<open>marshalStruct\<close> encodes, the output is the buffer, the tag
  \<open>SX_HASH\<close> (3), a four-byte big-endian count and the entries, and the count reads the
  number of entries that follow. The entries are those of the fields left after the
  filtering, so the count is the number of fields minus the number of omitted ones. A Go
  struct type has fewer than \<open>2 ^ 32\<close> fields.
\<close>

theorem entry_count_is_number_of_entries:
  assumes "marshalStruct e (StructV fs) = Inr out" and "length fs < 2 ^ 32"
  shows "\<exists>es. map (entry fs) (filter (\<lambda>f. \<not> omitted fs f) fs) = map Inr es
           \<and> out = e @ [3] @ PutUint32 (uint32 (length es)) @ concat es
           \<and> unat (BigEndian_Uint32 (drop (length e + 1) out)) = length es
           \<and> length es + length (filter (omitted fs) fs) = length fs"
proof -
  from marshalStruct_entries [OF assms(1)] obtain es where
    es: "map (entry fs) (filter (\<lambda>f. \<not> omitted fs f) fs) = map Inr es"
    and out: "out = e @ SX_HASH # PutUint32 (uint32 (length es)) @ concat es"
    by blast
  have len: "length es = length (filter (\<lambda>f. \<not> omitted fs f) fs)"
    using es by (metis length_map)
  have sum: "length es + length (filter (omitted fs) fs) = length fs"
    using len sum_length_filter_compl [of "omitted fs" fs] by simp
  then have "length es < 2 ^ 32" using assms(2) by simp
  then have "unat (BigEndian_Uint32 (PutUint32 (uint32 (length es)) @ concat es)) = length es"
    by (simp only: Uint32_PutUint32 unat_uint32)
  then have count: "unat (BigEndian_Uint32 (drop (length e + 1) out)) = length es"
    using out by simp
  show ?thesis
    using es out count sum by (auto simp: SX_HASH_def)
qed

theorem entry_count_is_number_of_entries_witness:
  "marshalStruct [5, 7] (StructV [StructField ''Name'' [] (StringV ''Kevin''),
                                   StructField ''Omit'' ''omitempty'' (StringV [])])
     = Inr [5, 7, 3, 0, 0, 0, 1, 10, 5, 75, 101, 118, 105, 110, 0, 0, 0, 4, 78, 97, 109, 101]
   \<and> length [StructField ''Name'' [] (StringV ''Kevin''),
              StructField ''Omit'' ''omitempty'' (StringV [])] < 2 ^ 32
   \<and> (\<exists>es. map (entry [StructField ''Name'' [] (StringV ''Kevin''),
                         StructField ''Omit'' ''omitempty'' (StringV [])])
              (filter (\<lambda>f. \<not> omitted [StructField ''Name'' [] (StringV ''Kevin''),
                         StructField ''Omit'' ''omitempty'' (StringV [])] f)
                 [StructField ''Name'' [] (StringV ''Kevin''),
                  StructField ''Omit'' ''omitempty'' (StringV [])]) = map Inr es
         \<and> [5, 7, 3, 0, 0, 0, 1, 10, 5, 75, 101, 118, 105, 110, 0, 0, 0, 4, 78, 97, 109, 101]
             = [5, 7] @ [3] @ PutUint32 (uint32 (length es)) @ concat es
         \<and> unat (BigEndian_Uint32 (drop (length [5, 7 :: byte] + 1)
              [5, 7, 3, 0, 0, 0, 1, 10, 5, 75, 101, 118, 105, 110, 0, 0, 0, 4, 78, 97, 109, 101]))
             = length es
         \<and> length es + length (filter (omitted [StructField ''Name'' [] (StringV ''Kevin''),
                         StructField ''Omit'' ''omitempty'' (StringV [])])
              [StructField ''Name'' [] (StringV ''Kevin''),
               StructField ''Omit'' ''omitempty'' (StringV [])])
             = length [StructField ''Name'' [] (StringV ''Kevin''),
                       StructField ''Omit'' ''omitempty'' (StringV [])])"
proof -
  let ?fs = "[StructField ''Name'' [] (StringV ''Kevin''),
              StructField ''Omit'' ''omitempty'' (StringV [])]"
  have m: "marshalStruct [5, 7] (StructV ?fs)
     = Inr [5, 7, 3, 0, 0, 0, 1, 10, 5, 75, 101, 118, 105, 110, 0, 0, 0, 4, 78, 97, 109, 101]"
    by code_simp
  have l: "length ?fs < 2 ^ 32" by simp
  show ?thesis
    using m l entry_count_is_number_of_entries [OF m l] by blast
qed

text \<open>
  For every struct that \<open>marshalStruct\<close> encodes, the entries follow the count in the
  declaration order of the fields that are kept, and each entry is an encoded value
  first, then the four-byte big-endian length of the field's name, then the bytes of the
  name. The value is the one \<open>value.FieldByName(f.Name)\<close> returns.
\<close>

lemma marshalStruct_values_then_keys:
  assumes "marshalStruct e (StructV fs) = Inr out"
  shows "\<exists>vals.
           map (\<lambda>f. marshalValue [] (FieldByName fs (Name f)))
             (filter (\<lambda>f. \<not> omitted fs f) fs) = map Inr vals
         \<and> out = e @ SX_HASH # PutUint32 (uint32 (length vals))
                 @ concat (map2 (\<lambda>val f. val @ PutUint32 (uint32 (length (Name f))) @ bytes (Name f))
                            vals (filter (\<lambda>f. \<not> omitted fs f) fs))"
proof -
  let ?kept = "filter (\<lambda>f. \<not> omitted fs f) fs"
  from marshalStruct_entries [OF assms] obtain es where
    es: "map (entry fs) ?kept = map Inr es"
    and out: "out = e @ SX_HASH # PutUint32 (uint32 (length es)) @ concat es"
    by blast
  from entries_values [OF es] obtain vals where
    vals: "map (\<lambda>f. marshalValue [] (FieldByName fs (Name f))) ?kept = map Inr vals"
    and esv: "es = map2 (\<lambda>val f. val @ PutUint32 (uint32 (length (Name f))) @ bytes (Name f))
                    vals ?kept"
    by blast
  have "length vals = length ?kept"
    using vals by (metis length_map)
  then have len: "length es = length vals"
    using esv by simp
  show ?thesis
    using vals out esv len by (intro exI [of _ vals]) simp
qed

text \<open>
  When the field names are distinct, the value found under a field's name is the
  field's own, in the test of the directive and in the entry.
\<close>

lemma omitted_distinct:
  "distinct (map Name fs) \<Longrightarrow> f \<in> set fs \<Longrightarrow> omitted fs f = omits f"
  by (simp add: omitted_def omits_def FieldByName_distinct)

lemma marshalStruct_distinct_names:
  assumes "marshalStruct e (StructV fs) = Inr out" and "distinct (map Name fs)"
  shows "\<exists>vals.
           map (\<lambda>g. marshalValue [] (FieldValue g)) (filter (\<lambda>g. \<not> omits g) fs) = map Inr vals
         \<and> out = e @ SX_HASH # PutUint32 (uint32 (length vals))
                 @ concat (map2 (\<lambda>val g. val @ PutUint32 (uint32 (length (Name g))) @ bytes (Name g))
                            vals (filter (\<lambda>g. \<not> omits g) fs))"
proof -
  have kept: "filter (\<lambda>g. \<not> omitted fs g) fs = filter (\<lambda>g. \<not> omits g) fs"
    using assms(2) by (intro filter_cong) (simp_all add: omitted_distinct)
  from marshalStruct_entries [OF assms(1)] obtain es where
    es: "map (entry fs) (filter (\<lambda>g. \<not> omits g) fs) = map Inr es"
    and out: "out = e @ SX_HASH # PutUint32 (uint32 (length es)) @ concat es"
    unfolding kept by blast
  from entries_values [OF es] obtain vals where
    vals: "map (\<lambda>g. marshalValue [] (FieldByName fs (Name g))) (filter (\<lambda>g. \<not> omits g) fs)
             = map Inr vals"
    and esv: "es = map2 (\<lambda>val g. val @ PutUint32 (uint32 (length (Name g))) @ bytes (Name g))
                    vals (filter (\<lambda>g. \<not> omits g) fs)"
    by blast
  have "length vals = length (filter (\<lambda>g. \<not> omits g) fs)"
    using vals by (metis length_map)
  then have len: "length es = length vals"
    using esv by simp
  have "map (\<lambda>g. marshalValue [] (FieldValue g)) (filter (\<lambda>g. \<not> omits g) fs)
          = map (\<lambda>g. marshalValue [] (FieldByName fs (Name g))) (filter (\<lambda>g. \<not> omits g) fs)"
    using assms(2) by (intro map_cong) (simp_all add: FieldByName_distinct)
  then have own: "map (\<lambda>g. marshalValue [] (FieldValue g)) (filter (\<lambda>g. \<not> omits g) fs) = map Inr vals"
    using vals by simp
  show ?thesis
    using own out esv len by (intro exI [of _ vals]) simp
qed

text \<open>
  C2 fails at a struct with two blank fields, \<open>struct{ _ bool; _ string }{}\<close>: the
  claim asks that each entry begin with the encoded value of its own field, and the
  second entry begins with the encoding of the first field, \<open>0a 01 30\<close>, where the
  second field's own encoding is \<open>0a 00\<close>. The loop reads the value with
  \<open>value.FieldByName(f.Name)\<close>, and both fields are named \<open>_\<close>.
\<close>

theorem second_blank_field_carries_first_value:
  "marshalStruct [] (StructV [StructField ''_'' [] (BoolV False), StructField ''_'' [] (StringV [])])
     = Inr ([3, 0, 0, 0, 2] @ [10, 1, 48] @ [0, 0, 0, 1, 95] @ [10, 1, 48] @ [0, 0, 0, 1, 95])
   \<and> marshalValue [] (FieldValue (StructField ''_'' [] (BoolV False))) = Inr [10, 1, 48]
   \<and> marshalValue [] (FieldValue (StructField ''_'' [] (StringV []))) = Inr [10, 0]
   \<and> [10, 1, 48 :: byte] \<noteq> [10, 0]"
  by code_simp

text \<open>
  A field whose directive starts with the option \<open>omitempty\<close>, whose length is zero
  and whose name is that of no other field is skipped: the struct encodes exactly as the
  struct without this field does, in the count and in every byte.
\<close>

lemma omitempty_field_skipped_unique_name:
  assumes "Split (Tag_Get_storable f) CHR '','' ! 0 = ''omitempty''"
    and "Len (FieldValue f) = Inr 0"
    and "Name f \<notin> Name ` set (fs1 @ fs2)"
  shows "marshalStruct e (StructV (fs1 @ f # fs2)) = marshalStruct e (StructV (fs1 @ fs2))"
proof -
  let ?fs = "fs1 @ f # fs2"
  have own: "FieldByName ?fs (Name f) = FieldValue f"
    using assms(3) by (intro FieldByName_own) auto
  have "length (Split (Tag_Get_storable f) CHR '','') > 0"
    by (cases "Tag_Get_storable f") (auto split: list.splits)
  then have skip: "omitempty (Split (Tag_Get_storable f) CHR '','') (FieldByName ?fs (Name f)) = Inr True"
    using assms(1,2) own by (simp add: omitempty_def)
  have step: "marshalStruct_loop ?fs (f # fs2) t e2 = marshalStruct_loop ?fs fs2 t e2" for t e2
    using skip by simp
  have "marshalStruct_loop ?fs ?fs 0 [] = marshalStruct_loop ?fs (fs1 @ fs2) 0 []"
    by (simp only: marshalStruct_loop_append [of ?fs fs1] step)
  also have "\<dots> = marshalStruct_loop (fs1 @ fs2) (fs1 @ fs2) 0 []"
  proof (rule marshalStruct_loop_cong)
    fix g assume "g \<in> set (fs1 @ fs2)"
    then have "Name g \<noteq> Name f" using assms(3) by (metis imageI)
    then show "FieldByName ?fs (Name g) = FieldByName (fs1 @ fs2) (Name g)"
      by (rule FieldByName_other)
  qed
  finally show ?thesis
    by (simp only: marshalStruct_StructV)
qed

text \<open>
  C3 fails at \<open>struct{ _ [1]int; _ string `storable:"omitempty"` }{}\<close>: the second field
  carries the directive and its length is zero, yet it is not skipped. The length is read
  from \<open>value.FieldByName("_")\<close>, the first field, whose length is 1: the count is 2,
  where the struct without the field has the count 1, and a second entry is written. With
  a \<open>bool\<close> as the first blank field the encoder panics in \<open>Len\<close>.
\<close>

theorem empty_omitempty_blank_field_is_not_skipped:
  "Split (Tag_Get_storable (StructField ''_'' ''omitempty'' (StringV []))) CHR '','' ! 0 = ''omitempty''
   \<and> Len (FieldValue (StructField ''_'' ''omitempty'' (StringV []))) = Inr 0
   \<and> marshalStruct [] (StructV [StructField ''_'' [] (ArrayV [IntV IntKind.Int 0]),
                                 StructField ''_'' ''omitempty'' (StringV [])])
       = Inr ([3, 0, 0, 0, 2] @ [2, 0, 0, 0, 1, 10, 1, 48] @ [0, 0, 0, 1, 95]
               @ [2, 0, 0, 0, 1, 10, 1, 48] @ [0, 0, 0, 1, 95])
   \<and> marshalStruct [] (StructV [StructField ''_'' [] (ArrayV [IntV IntKind.Int 0])])
       = Inr ([3, 0, 0, 0, 1] @ [2, 0, 0, 0, 1, 10, 1, 48] @ [0, 0, 0, 1, 95])
   \<and> marshalStruct [] (StructV [StructField ''_'' [] (BoolV False),
                                 StructField ''_'' ''omitempty'' (StringV [])])
       = Inl (ValueError ''reflect.Value.Len'' Bool)"
  by code_simp

text \<open>
  C4, as stated, fails: the encoder never asks whether a field is exported. The struct of
  the repository's own test, with the single unexported field \<open>nested\<close>, encodes with the
  count 1, the value of the field and its name.
\<close>

theorem unexported_field_is_encoded:
  "\<not> IsExported ''nested''
   \<and> Marshal (StructV [StructField ''nested'' []
                 (PtrV (StructV [StructField ''Name'' [] (StringV ''Kevin'')]))])
     = Inr [5, 7, 3, 0, 0, 0, 1, 4, 3, 0, 0, 0, 1, 10, 5, 75, 101, 118, 105, 110,
            0, 0, 0, 4, 78, 97, 109, 101, 0, 0, 0, 6, 110, 101, 115, 116, 101, 100]"
  by code_simp

text \<open>
  C4, amended. For every struct with distinct field names that \<open>marshalStruct\<close>
  encodes, unexported fields are treated exactly as exported ones are: the output is the
  tag, the count and, for every field that the directive does not omit, exported or not
  and in declaration order, the field's own encoded value followed by the length of its
  name and its name. So an unexported field that is not omitted has its entry, with its
  own value, in the output and is counted, the count being the number of kept exported
  fields plus the number of kept unexported fields.
\<close>

theorem unexported_fields_count_and_are_written:
  assumes "marshalStruct e (StructV fs) = Inr out"
    and "distinct (map Name fs)"
    and "f \<in> set fs" and "\<not> IsExported (Name f)" and "\<not> omits f"
  shows "\<exists>vals i.
           map (\<lambda>g. marshalValue [] (FieldValue g)) (filter (\<lambda>g. \<not> omits g) fs) = map Inr vals
         \<and> out = e @ SX_HASH # PutUint32 (uint32 (length vals))
                 @ concat (map2 (\<lambda>val g. val @ PutUint32 (uint32 (length (Name g))) @ bytes (Name g))
                            vals (filter (\<lambda>g. \<not> omits g) fs))
         \<and> i < length vals \<and> filter (\<lambda>g. \<not> omits g) fs ! i = f
         \<and> marshalValue [] (FieldValue f) = Inr (vals ! i)
         \<and> length vals
             = length (filter (\<lambda>g. \<not> omits g \<and> IsExported (Name g)) fs)
             + length (filter (\<lambda>g. \<not> omits g \<and> \<not> IsExported (Name g)) fs)
         \<and> 0 < length (filter (\<lambda>g. \<not> omits g \<and> \<not> IsExported (Name g)) fs)"
proof -
  let ?kept = "filter (\<lambda>g. \<not> omits g) fs"
  from marshalStruct_distinct_names [OF assms(1,2)] obtain vals where
    vals: "map (\<lambda>g. marshalValue [] (FieldValue g)) ?kept = map Inr vals"
    and out: "out = e @ SX_HASH # PutUint32 (uint32 (length vals))
                 @ concat (map2 (\<lambda>val g. val @ PutUint32 (uint32 (length (Name g))) @ bytes (Name g))
                            vals ?kept)"
    by blast
  have lv: "length vals = length ?kept"
    using vals by (metis length_map)
  have "f \<in> set ?kept" using assms(3,5) by simp
  then obtain i where i: "i < length ?kept" "?kept ! i = f"
    by (metis in_set_conv_nth)
  have "map (\<lambda>g. marshalValue [] (FieldValue g)) ?kept ! i = map Inr vals ! i"
    using vals by simp
  then have own: "marshalValue [] (FieldValue f) = Inr (vals ! i)"
    using i lv by simp
  have "length ?kept = length (filter (\<lambda>g. IsExported (Name g)) ?kept)
                     + length (filter (\<lambda>g. \<not> IsExported (Name g)) ?kept)"
    using sum_length_filter_compl [of "\<lambda>g. IsExported (Name g)" ?kept] by simp
  then have len: "length vals
       = length (filter (\<lambda>g. \<not> omits g \<and> IsExported (Name g)) fs)
       + length (filter (\<lambda>g. \<not> omits g \<and> \<not> IsExported (Name g)) fs)"
    using lv by (simp add: conj_commute)
  have "f \<in> set (filter (\<lambda>g. \<not> omits g \<and> \<not> IsExported (Name g)) fs)"
    using assms(3,4,5) by simp
  then have pos: "0 < length (filter (\<lambda>g. \<not> omits g \<and> \<not> IsExported (Name g)) fs)"
    by (metis length_pos_if_in_set)
  show ?thesis
    using vals out i lv own len pos by (intro exI [of _ vals] exI [of _ i]) simp
qed

theorem unexported_fields_count_and_are_written_witness:
  "marshalStruct [] (StructV [StructField ''Name'' [] (StringV ''Kevin''),
                              StructField ''nested'' [] (PtrV (StringV ''x''))])
     = Inr [3, 0, 0, 0, 2, 10, 5, 75, 101, 118, 105, 110, 0, 0, 0, 4, 78, 97, 109, 101,
            4, 10, 1, 120, 0, 0, 0, 6, 110, 101, 115, 116, 101, 100]
   \<and> distinct (map Name [StructField ''Name'' [] (StringV ''Kevin''),
                          StructField ''nested'' [] (PtrV (StringV ''x''))])
   \<and> StructField ''nested'' [] (PtrV (StringV ''x''))
        \<in> set [StructField ''Name'' [] (StringV ''Kevin''),
                 StructField ''nested'' [] (PtrV (StringV ''x''))]
   \<and> \<not> IsExported (Name (StructField ''nested'' [] (PtrV (StringV ''x''))))
   \<and> \<not> omits (StructField ''nested'' [] (PtrV (StringV ''x'')))
   \<and> (\<exists>vals i.
         [3, 0, 0, 0, 2, 10, 5, 75, 101, 118, 105, 110, 0, 0, 0, 4, 78, 97, 109, 101,
          4, 10, 1, 120, 0, 0, 0, 6, 110, 101, 115, 116, 101, 100]
           = [] @ SX_HASH # PutUint32 (uint32 (length vals))
               @ concat (map2 (\<lambda>val g. val @ PutUint32 (uint32 (length (Name g))) @ bytes (Name g))
                   vals (filter (\<lambda>g. \<not> omits g)
                     [StructField ''Name'' [] (StringV ''Kevin''),
                      StructField ''nested'' [] (PtrV (StringV ''x''))]))
         \<and> i < length vals
         \<and> marshalValue [] (FieldValue (StructField ''nested'' [] (PtrV (StringV ''x''))))
             = Inr (vals ! i))"
proof -
  let ?f = "StructField ''nested'' [] (PtrV (StringV ''x''))"
  let ?fs = "[StructField ''Name'' [] (StringV ''Kevin''), ?f]"
  have m: "marshalStruct [] (StructV ?fs)
     = Inr [3, 0, 0, 0, 2, 10, 5, 75, 101, 118, 105, 110, 0, 0, 0, 4, 78, 97, 109, 101,
            4, 10, 1, 120, 0, 0, 0, 6, 110, 101, 115, 116, 101, 100]"
    by code_simp
  have d: "distinct (map Name ?fs)" by simp
  have i: "?f \<in> set ?fs" by simp
  have u: "\<not> IsExported (Name ?f)" by (simp add: IsExported_def)
  have k: "\<not> omits ?f" by (simp add: omits_def omitempty_def)
  show ?thesis
    using m d i u k unexported_fields_count_and_are_written [OF m d i u k] by blast
qed

section \<open>The header\<close>

text \<open>
  Whatever \<open>marshalValue\<close> writes for a value, nested or not, is appended to the
  buffer and is either nothing or begins with one of the tags \<open>SX_ARRAY\<close>,
  \<open>SX_HASH\<close>, \<open>SX_REF\<close>, \<open>SX_SCALAR\<close>; it never begins with the header.
\<close>

lemma marshalSlice_loop_shift:
  "marshalSlice_loop e xs = map_sum id ((@) e) (marshalSlice_loop [] xs)"
  by (rule marshalSlice_loop_prefix) (rule marshalValue_prefix)

lemma marshalValue_tag_first:
  assumes "marshalValue e x = Inr b"
  shows "\<exists>t. b = e @ t \<and> (t = [] \<or> hd t \<in> {SX_ARRAY, SX_HASH, SX_REF, SX_SCALAR})"
proof (cases x)
  case (PtrV y)
  show ?thesis
  proof (cases "Kind_of y = Ptr")
    case True
    then have "b = e @ [SX_REF]" using assms PtrV by (simp add: marshalValue_PtrV)
    then show ?thesis by simp
  next
    case False
    then have "marshalValue (e @ [SX_REF]) y = Inr b"
      using assms PtrV by (simp add: marshalValue_PtrV)
    then obtain t where "b = (e @ [SX_REF]) @ t"
      using marshalValue_prefix [of "e @ [SX_REF]" y]
      by (cases "marshalValue [] y") auto
    then have "b = e @ SX_REF # t" by simp
    then show ?thesis by (intro exI [of _ "SX_REF # t"]) simp
  qed
next
  case (StructV fs)
  then obtain n e2 where "b = e @ SX_HASH # PutUint32 (uint32 n) @ e2"
    using assms by (auto simp: marshalValue_simps marshalStruct_StructV split: sum.splits)
  then show ?thesis by (intro exI [of _ "SX_HASH # PutUint32 (uint32 n) @ e2"]) simp
next
  case (SliceV xs)
  let ?h = "SX_ARRAY # PutUint32 (uint32 (length xs))"
  have "marshalSlice_loop (e @ ?h) xs = Inr b"
    using assms SliceV by (simp add: marshalValue_simps marshalSlice_SliceV)
  then obtain t where "b = (e @ ?h) @ t"
    using marshalSlice_loop_shift [of "e @ ?h" xs]
    by (cases "marshalSlice_loop [] xs") auto
  then show ?thesis by (intro exI [of _ "?h @ t"]) simp
next
  case (ArrayV xs)
  let ?h = "SX_ARRAY # PutUint32 (uint32 (length xs))"
  have "marshalSlice_loop (e @ ?h) xs = Inr b"
    using assms ArrayV by (simp add: marshalValue_simps marshalSlice_ArrayV)
  then obtain t where "b = (e @ ?h) @ t"
    using marshalSlice_loop_shift [of "e @ ?h" xs]
    by (cases "marshalSlice_loop [] xs") auto
  then show ?thesis by (intro exI [of _ "?h @ t"]) simp
next
  case (BoolV c)
  then have "b = e @ SX_SCALAR # 1 # bytes (if c then ''1'' else ''0'')"
    using assms by (simp add: marshalValue_simps marshalBool_shape)
  then show ?thesis by (intro exI [of _ "SX_SCALAR # 1 # bytes (if c then ''1'' else ''0'')"]) simp
next
  case (IntV k i)
  then have "b = e @ SX_SCALAR # uint8 (length (FormatInt i)) # bytes (FormatInt i)"
    using assms marshalInt_shape [of e i] by (simp add: marshalValue_simps)
  then show ?thesis
    by (intro exI [of _ "SX_SCALAR # uint8 (length (FormatInt i)) # bytes (FormatInt i)"]) simp
next
  case (UintV k u)
  then have "b = e @ SX_SCALAR # uint8 (length (FormatUint u)) # bytes (FormatUint u)"
    using assms marshalUint_shape [of e u] by (simp add: marshalValue_simps)
  then show ?thesis
    by (intro exI [of _ "SX_SCALAR # uint8 (length (FormatUint u)) # bytes (FormatUint u)"]) simp
next
  case (FloatV k s)
  then have "b = e @ SX_SCALAR # uint8 (length s) # bytes s"
    using assms by (simp add: marshalValue_simps marshalFloat_def write_defs)
  then show ?thesis by (intro exI [of _ "SX_SCALAR # uint8 (length s) # bytes s"]) simp
next
  case (StringV s)
  then have "b = e @ SX_SCALAR # uint8 (length s) # bytes s"
    using assms by (simp add: marshalValue_simps marshalString_def write_defs)
  then show ?thesis by (intro exI [of _ "SX_SCALAR # uint8 (length s) # bytes s"]) simp
qed (insert assms, simp_all add: marshalValue_simps)

lemma marshalValue_no_header:
  assumes "marshalValue e x = Inr b"
  shows "\<exists>t. b = e @ t \<and> (t = [] \<or> hd t \<in> {2, 3, 4, 10}) \<and> take 2 t \<noteq> [5, 7]"
proof -
  from marshalValue_tag_first [OF assms] obtain t where
    t: "b = e @ t" "t = [] \<or> hd t \<in> {SX_ARRAY, SX_HASH, SX_REF, SX_SCALAR}"
    by blast
  then have tag: "t = [] \<or> hd t \<in> {2, 3, 4, 10}"
    by (auto simp: SX_ARRAY_def SX_HASH_def SX_REF_def SX_SCALAR_def)
  then have "take 2 t \<noteq> [5, 7]"
    by (cases t) auto
  then show ?thesis using t(1) tag by blast
qed

text \<open>
  C8. For every input value that \<open>Marshal\<close> encodes, the output begins with the magic
  byte 5 and the version byte 7, written by \<open>marshal\<close> before the value is looked at, and
  what follows the two bytes is the encoding \<open>marshalValue\<close> gives on its own. The header
  is written once and never in front of a nested value: the same value as the element of
  a slice or as the field of a struct contributes exactly the bytes after the header;
  every encoding \<open>marshalValue\<close> appends, for any value and on any buffer, is empty or
  begins with a tag 2, 3, 4 or 10 and so not with the bytes 5, 7; and the nested values
  are written by \<open>marshalValue\<close> and by nothing else, the pointee of a pointer after the
  reference tag, the elements of a slice or array one after the other after tag and count,
  the value of each field in front of the length of its name and its name.
\<close>

theorem header_first_and_only_once:
  assumes "Marshal v = Inr out"
  shows "take 2 out = [5, 7]
       \<and> marshalValue [] (ValueOf v) = Inr (drop 2 out)
       \<and> Marshal (SliceV [ValueOf v])
           = Inr ([5, 7] @ SX_ARRAY # PutUint32 (uint32 1) @ drop 2 out)
       \<and> Marshal (StructV [StructField name [] (ValueOf v)])
           = Inr ([5, 7] @ SX_HASH # PutUint32 (uint32 1) @ drop 2 out
                   @ PutUint32 (uint32 (length name)) @ bytes name)
       \<and> (marshalValue e x = Inr b \<longrightarrow>
            (\<exists>t. b = e @ t \<and> (t = [] \<or> hd t \<in> {2, 3, 4, 10}) \<and> take 2 t \<noteq> [5, 7]))
       \<and> (Kind_of x \<noteq> Ptr \<longrightarrow> marshalValue e (PtrV x) = marshalValue (e @ [SX_REF]) x)
       \<and> (map (marshalValue []) xs = map Inr es \<longrightarrow>
            marshalValue e (SliceV xs)
              = Inr (e @ SX_ARRAY # PutUint32 (uint32 (length xs)) @ concat es)
          \<and> marshalValue e (ArrayV xs)
              = Inr (e @ SX_ARRAY # PutUint32 (uint32 (length xs)) @ concat es))
       \<and> (marshalValue e (StructV fs) = Inr sout \<longrightarrow>
            (\<exists>vals.
               map (\<lambda>f. marshalValue [] (FieldByName fs (Name f)))
                 (filter (\<lambda>f. \<not> omitted fs f) fs) = map Inr vals
             \<and> sout = e @ SX_HASH # PutUint32 (uint32 (length vals))
                 @ concat (map2 (\<lambda>val f. val @ PutUint32 (uint32 (length (Name f))) @ bytes (Name f))
                            vals (filter (\<lambda>f. \<not> omitted fs f) fs))))"
proof -
  obtain body where body: "marshalValue [] (ValueOf v) = Inr body"
    using assms marshalValue_prefix [of "[MAGIC, VERSION]" "ValueOf v"]
    by (cases "marshalValue [] (ValueOf v)")
       (simp_all add: Marshal_def marshal_def write_defs)
  have at: "marshalValue e' (ValueOf v) = Inr (e' @ body)" for e'
    using body by (rule marshalValue_Inr_prefix)
  have out: "out = [5, 7] @ body"
    using assms at [of "[MAGIC, VERSION]"]
    by (simp add: Marshal_def marshal_def write_defs MAGIC_def VERSION_def)
  have slice: "Marshal (SliceV [ValueOf v]) = Inr ([5, 7] @ SX_ARRAY # PutUint32 (uint32 1) @ body)"
    by (simp add: Marshal_def marshal_def write_defs MAGIC_def VERSION_def
          marshalValue_simps marshalSlice_SliceV at)
  have struct: "Marshal (StructV [StructField name [] (ValueOf v)])
           = Inr ([5, 7] @ SX_HASH # PutUint32 (uint32 1) @ body
                   @ PutUint32 (uint32 (length name)) @ bytes name)"
    by (simp add: Marshal_def marshal_def write_defs MAGIC_def VERSION_def
          marshalValue_simps marshalStruct_StructV at omitempty_def)
  have first: "take 2 out = [5, 7] \<and> marshalValue [] (ValueOf v) = Inr (drop 2 out)
       \<and> Marshal (SliceV [ValueOf v])
           = Inr ([5, 7] @ SX_ARRAY # PutUint32 (uint32 1) @ drop 2 out)
       \<and> Marshal (StructV [StructField name [] (ValueOf v)])
           = Inr ([5, 7] @ SX_HASH # PutUint32 (uint32 1) @ drop 2 out
                   @ PutUint32 (uint32 (length name)) @ bytes name)"
    using out body slice struct by simp
  have tag: "marshalValue e x = Inr b \<longrightarrow>
            (\<exists>t. b = e @ t \<and> (t = [] \<or> hd t \<in> {2, 3, 4, 10}) \<and> take 2 t \<noteq> [5, 7])"
    using marshalValue_no_header [of e x b] by blast
  have ptr: "Kind_of x \<noteq> Ptr \<longrightarrow> marshalValue e (PtrV x) = marshalValue (e @ [SX_REF]) x"
    by (simp add: marshalValue_PtrV)
  have elems: "map (marshalValue []) xs = map Inr es \<longrightarrow>
            marshalValue e (SliceV xs)
              = Inr (e @ SX_ARRAY # PutUint32 (uint32 (length xs)) @ concat es)
          \<and> marshalValue e (ArrayV xs)
              = Inr (e @ SX_ARRAY # PutUint32 (uint32 (length xs)) @ concat es)"
    using marshalSlice_elements [of xs es e] by (simp add: marshalValue_simps)
  have fields: "marshalValue e (StructV fs) = Inr sout \<longrightarrow>
            (\<exists>vals.
               map (\<lambda>f. marshalValue [] (FieldByName fs (Name f)))
                 (filter (\<lambda>f. \<not> omitted fs f) fs) = map Inr vals
             \<and> sout = e @ SX_HASH # PutUint32 (uint32 (length vals))
                 @ concat (map2 (\<lambda>val f. val @ PutUint32 (uint32 (length (Name f))) @ bytes (Name f))
                            vals (filter (\<lambda>f. \<not> omitted fs f) fs)))"
    using marshalStruct_values_then_keys [of e fs sout] by (simp add: marshalValue_simps)
  show ?thesis
    using first tag ptr elems fields by (intro conjI) blast+
qed

theorem header_first_and_only_once_witness:
  "Marshal (BoolV False) = Inr [5, 7, 10, 1, 48]
   \<and> marshalValue [1] (StringV ''a'') = Inr [1, 10, 1, 97]
   \<and> Kind_of (StringV ''a'') \<noteq> Ptr
   \<and> map (marshalValue []) [BoolV True, StringV ''a''] = map Inr [[10, 1, 49], [10, 1, 97]]
   \<and> marshalValue [1] (StructV [StructField ''A'' [] (BoolV True)])
       = Inr [1, 3, 0, 0, 0, 1, 10, 1, 49, 0, 0, 0, 1, 65]
   \<and> take 2 [5, 7, 10, 1, 48 :: byte] = [5, 7]
   \<and> marshalValue [] (ValueOf (BoolV False)) = Inr (drop 2 [5, 7, 10, 1, 48])
   \<and> Marshal (SliceV [ValueOf (BoolV False)])
       = Inr ([5, 7] @ SX_ARRAY # PutUint32 (uint32 1) @ drop 2 [5, 7, 10, 1, 48])
   \<and> Marshal (StructV [StructField ''B'' [] (ValueOf (BoolV False))])
       = Inr ([5, 7] @ SX_HASH # PutUint32 (uint32 1) @ drop 2 [5, 7, 10, 1, 48]
               @ PutUint32 (uint32 (length ''B'')) @ bytes ''B'')
   \<and> (\<exists>t. [1, 10, 1, 97] = [1] @ t \<and> (t = [] \<or> hd t \<in> {2, 3, 4, 10 :: byte})
          \<and> take 2 t \<noteq> [5, 7])
   \<and> marshalValue [1] (PtrV (StringV ''a'')) = marshalValue ([1] @ [SX_REF]) (StringV ''a'')
   \<and> marshalValue [1] (SliceV [BoolV True, StringV ''a''])
       = Inr ([1] @ SX_ARRAY # PutUint32 (uint32 (length [BoolV True, StringV ''a'']))
               @ concat [[10, 1, 49], [10, 1, 97]])
   \<and> (\<exists>vals. [1, 3, 0, 0, 0, 1, 10, 1, 49, 0, 0, 0, 1, 65]
         = [1] @ SX_HASH # PutUint32 (uint32 (length vals))
             @ concat (map2 (\<lambda>val f. val @ PutUint32 (uint32 (length (Name f))) @ bytes (Name f))
                 vals (filter (\<lambda>f. \<not> omitted [StructField ''A'' [] (BoolV True)] f)
                    [StructField ''A'' [] (BoolV True)])))"
proof -
  have m: "Marshal (BoolV False) = Inr [5, 7, 10, 1, 48]"
    by code_simp
  have s: "marshalValue [1] (StringV ''a'') = Inr [1, 10, 1, 97]"
    by code_simp
  have k: "Kind_of (StringV ''a'') \<noteq> Ptr"
    by simp
  have l: "map (marshalValue []) [BoolV True, StringV ''a''] = map Inr [[10, 1, 49], [10, 1, 97]]"
    by code_simp
  have r: "marshalValue [1] (StructV [StructField ''A'' [] (BoolV True)])
       = Inr [1, 3, 0, 0, 0, 1, 10, 1, 49, 0, 0, 0, 1, 65]"
    by code_simp
  note h = header_first_and_only_once [OF m,
      where name = "''B''" and e = "[1]" and x = "StringV ''a''" and b = "[1, 10, 1, 97]"
        and xs = "[BoolV True, StringV ''a'']" and es = "[[10, 1, 49], [10, 1, 97]]"
        and fs = "[StructField ''A'' [] (BoolV True)]"
        and sout = "[1, 3, 0, 0, 0, 1, 10, 1, 49, 0, 0, 0, 1, 65]"]
  show ?thesis
    using m s k l r h by blast
qed

end
